theory Spec2Isabelle
  imports Main "HOL-Library.Multiset"
begin

section \<open>Data model of the season detail page\<close>

text \<open>
  An instant is a number of milliseconds since the epoch. A \<open>Date\<close> or \<open>moment\<close> value
  is such an instant or the Invalid Date; its time value is at most \<open>maxTime\<close> in
  absolute value.
\<close>

type_synonym date = int

datatype jsDate = Invalid | Valid int

definition msPerDay :: int where
  "msPerDay = 86400000"

definition maxTime :: int where
  "maxTime = 8640000000000000"

definition timeClip :: "int \<Rightarrow> jsDate" where
  "timeClip t = (if - maxTime \<le> t \<and> t \<le> maxTime then Valid t else Invalid)"

text \<open>
  The page builds every \<open>moment\<close> in local mode. The time zone of the browser is not part
  of the repository: it is a parameter, given as the platform reads it, by the local time
  value of an instant (\<open>toLocal\<close>) and by the instant of a local time value (\<open>toUTC\<close>).
\<close>

record zone =
  toLocal :: "int \<Rightarrow> int"
  toUTC :: "int \<Rightarrow> int"

text \<open>A zone that is always \<open>offset\<close> milliseconds ahead of UTC.\<close>

definition fixedZone :: "int \<Rightarrow> zone" where
  "fixedZone offset = \<lparr>toLocal = (\<lambda>t. t + offset), toUTC = (\<lambda>l. l - offset)\<rparr>"

text \<open>
  \<open>moment(d).add(n, 'days')\<close>: an invalid moment stays invalid and zero days change
  nothing; otherwise \<open>setDate\<close> moves the local time value by \<open>n\<close> whole days and the
  result is clipped to the range of a \<open>Date\<close>.
\<close>

definition addDays :: "zone \<Rightarrow> jsDate \<Rightarrow> int \<Rightarrow> jsDate" where
  "addDays z d n =
     (case d of
        Invalid \<Rightarrow> Invalid
      | Valid t \<Rightarrow>
          if n = 0 then Valid t
          else timeClip (toUTC z (toLocal z t + n * msPerDay)))"

text \<open>\<open>moment(a).isAfter(b)\<close>: false when either side is invalid.\<close>

definition isAfter :: "jsDate \<Rightarrow> jsDate \<Rightarrow> bool" where
  "isAfter a b = (case (a, b) of (Valid x, Valid y) \<Rightarrow> y < x | _ \<Rightarrow> False)"

text \<open>The local calendar day of an instant, as a day number.\<close>

definition localDayOf :: "zone \<Rightarrow> date \<Rightarrow> int" where
  "localDayOf z d = toLocal z d div msPerDay"

text \<open>\<open>moment(d).endOf('day')\<close>: one millisecond before the instant of the next local
  midnight.\<close>

definition endOfDay :: "zone \<Rightarrow> date \<Rightarrow> date" where
  "endOfDay z d = toUTC z ((localDayOf z d + 1) * msPerDay) - 1"

text \<open>\<open>moment(a).isBefore(moment(b), 'day')\<close>: the end of the local day of \<open>a\<close> lies
  before \<open>b\<close>.\<close>

definition isBeforeDay :: "zone \<Rightarrow> date \<Rightarrow> date \<Rightarrow> bool" where
  "isBeforeDay z a b = (endOfDay z a < b)"

text \<open>
  In a regular zone an instant is at or after the instant of a local midnight exactly when
  its local time value is at or after that midnight: the local calendar date never goes
  back. Every zone with a fixed offset is regular.
\<close>

definition midnightRegular :: "zone \<Rightarrow> bool" where
  "midnightRegular z \<longleftrightarrow>
     (\<forall>k t. (toUTC z (k * msPerDay) \<le> t) = (k * msPerDay \<le> toLocal z t))"

record computedDates =
  cd_start :: "date option"
  cd_end :: "date option"

text \<open>
  A task row as the page receives it. The field \<open>_id\<close> of the source is \<open>task_id\<close>;
  \<open>status\<close> and the department names are the strings the source compares.
\<close>

record task =
  task_id :: string
  order :: string
  name :: string
  responsible :: "string list"
  precedingTasks :: "string list"
  leadTime :: int
  status :: string
  computedDates :: "computedDates option"
  actualCompletion :: "date option"
  remarks :: "string option"

record timelineEntry =
  tl_start :: jsDate
  tl_end :: jsDate

type_synonym timeline = "string \<rightharpoonup> timelineEntry"

section \<open>Display order\<close>

text \<open>
  Modelled from the spec: \<open>String.prototype.localeCompare\<close> is a function of the
  platform, not of the repository; the spec reads it as the lexicographic comparison of
  strings, here by character code, with the result \<open>-1\<close>, \<open>0\<close> or \<open>1\<close>.
\<close>

fun localeCompare :: "string \<Rightarrow> string \<Rightarrow> int" where
  "localeCompare [] [] = 0"
| "localeCompare [] (y # ys) = - 1"
| "localeCompare (x # xs) [] = 1"
| "localeCompare (x # xs) (y # ys) =
     (if (of_char x :: nat) < of_char y then - 1
      else if (of_char y :: nat) < of_char x then 1
      else localeCompare xs ys)"

text \<open>The comparator handed to \<open>sort\<close> in \<open>calculateReferenceTimeline\<close>,
  \<open>fetchSeasonDetails\<close>, \<open>handleProcessRowUpdate\<close> and \<open>handleRemarkUpdate\<close>.\<close>

definition orderComparator :: "task \<Rightarrow> task \<Rightarrow> int" where
  "orderComparator a b =
     (if length (order a) < length (order b) then - 1
      else if length (order a) > length (order b) then 1
      else localeCompare (order a) (order b))"

text \<open>
  \<open>Array.prototype.sort\<close> is stable: an element goes before the first element that the
  comparator does not put before it, so equal elements keep their order.
\<close>

fun insertBy :: "('a \<Rightarrow> 'a \<Rightarrow> int) \<Rightarrow> 'a \<Rightarrow> 'a list \<Rightarrow> 'a list" where
  "insertBy cmp x [] = [x]"
| "insertBy cmp x (y # ys) =
     (if cmp x y \<le> 0 then x # y # ys else y # insertBy cmp x ys)"

fun sortBy :: "('a \<Rightarrow> 'a \<Rightarrow> int) \<Rightarrow> 'a list \<Rightarrow> 'a list" where
  "sortBy cmp [] = []"
| "sortBy cmp (x # xs) = insertBy cmp x (sortBy cmp xs)"

definition sortTasks :: "task list \<Rightarrow> task list" where
  "sortTasks tasks = sortBy orderComparator tasks"

text \<open>A task that carries only an order code, for examples about the display order.\<close>

definition taskWithOrder :: "string \<Rightarrow> task" where
  "taskWithOrder c =
     \<lparr>task_id = c, order = c, name = [], responsible = [], precedingTasks = [],
      leadTime = 0, status = ''pending'', computedDates = None,
      actualCompletion = None, remarks = None\<rparr>"

section \<open>Strings, users and seasons\<close>

text \<open>\<open>String.prototype.toLowerCase\<close> on the ASCII letters; other characters are kept.\<close>

definition lowerChar :: "char \<Rightarrow> char" where
  "lowerChar c =
     (case map_of (zip ''ABCDEFGHIJKLMNOPQRSTUVWXYZ'' ''abcdefghijklmnopqrstuvwxyz'') c of
        None \<Rightarrow> c
      | Some l \<Rightarrow> l)"

definition toLowerCase :: "string \<Rightarrow> string" where
  "toLowerCase s = map lowerChar s"

text \<open>
  \<open>currentUser.department\<close> is read in two ways by the source: as a value compared with
  the names in \<open>task.responsible\<close> (\<open>handleEditClick\<close>) and as an object with a
  \<open>name\<close> (\<open>isCellEditable\<close>). Both shapes are values of this type.
\<close>

datatype department = DeptString string | DeptObject "string option"

record user =
  role :: "string option"
  department :: "department option"

record season =
  season_status :: string
  createdAt :: date

datatype js_error = TypeError

record alertInfo =
  alert_open :: bool
  message :: string
  severity :: string

datatype rowMode = Edit string | View

record pageState =
  alertInfo :: alertInfo
  rowModesModel :: "string \<rightharpoonup> rowMode"
  isUpdating :: bool

section \<open>Reference timeline\<close>

text \<open>\<open>new Map(tasks.map(task => [task.order, task]))\<close>: a later task replaces an
  earlier one with the same order code.\<close>

definition tasksByOrder :: "task list \<Rightarrow> (string \<rightharpoonup> task)" where
  "tasksByOrder tasks = fold (\<lambda>t m. m(order t \<mapsto> t)) tasks Map.empty"

text \<open>
  The \<open>for\<close> loop over \<open>task.precedingTasks\<close>: \<open>None\<close> is \<open>canCalculate = false\<close>
  (the loop breaks at the first code that names no task or a task without an entry),
  \<open>Some d\<close> is the final \<open>maxPrecedingEndDate\<close>.
\<close>

fun scanPreceding :: "(string \<rightharpoonup> task) \<Rightarrow> timeline \<Rightarrow> string list \<Rightarrow> jsDate \<Rightarrow> jsDate option" where
  "scanPreceding byOrder tm [] maxEnd = Some maxEnd"
| "scanPreceding byOrder tm (c # cs) maxEnd =
     (case byOrder c of
        None \<Rightarrow> None
      | Some p \<Rightarrow>
          (case tm (task_id p) of
             None \<Rightarrow> None
           | Some e \<Rightarrow>
               scanPreceding byOrder tm cs (if isAfter (tl_end e) maxEnd then tl_end e else maxEnd)))"

text \<open>The body of \<open>sortedTasks.forEach\<close>; the state is the map and
  \<open>processedInThisIteration\<close>.\<close>

definition processTask ::
  "zone \<Rightarrow> (string \<rightharpoonup> task) \<Rightarrow> jsDate \<Rightarrow> task \<Rightarrow> timeline \<times> int \<Rightarrow> timeline \<times> int" where
  "processTask z byOrder created t st =
     (case st of (tm, processed) \<Rightarrow>
        if tm (task_id t) \<noteq> None then (tm, processed)
        else
          (case scanPreceding byOrder tm (precedingTasks t) created of
             None \<Rightarrow> (tm, processed)
           | Some startDate \<Rightarrow>
               (tm(task_id t \<mapsto> \<lparr>tl_start = startDate, tl_end = addDays z startDate (leadTime t)\<rparr>),
                processed + 1)))"

definition timelinePass ::
  "zone \<Rightarrow> (string \<rightharpoonup> task) \<Rightarrow> jsDate \<Rightarrow> task list \<Rightarrow> timeline \<Rightarrow> timeline \<times> int" where
  "timelinePass z byOrder created sortedTasks tm =
     fold (processTask z byOrder created) sortedTasks (tm, 0)"

text \<open>The \<open>while\<close> loop; the result is the map together with \<open>iterations\<close>, the number
  of passes made.\<close>

function timelineLoop ::
  "zone \<Rightarrow> (string \<rightharpoonup> task) \<Rightarrow> jsDate \<Rightarrow> task list \<Rightarrow> int \<Rightarrow> timeline \<Rightarrow> int \<Rightarrow> int
     \<Rightarrow> timeline \<times> int" where
  "timelineLoop z byOrder created sortedTasks maxIterations tm tasksToProcess iterations =
     (if tasksToProcess > 0 \<and> iterations < maxIterations then
        (case timelinePass z byOrder created sortedTasks tm of
           (tm', processedInThisIteration) \<Rightarrow>
             if processedInThisIteration = 0 \<and> tasksToProcess - processedInThisIteration > 0
             then (tm', iterations + 1)
             else timelineLoop z byOrder created sortedTasks maxIterations tm'
                    (tasksToProcess - processedInThisIteration) (iterations + 1))
      else (tm, iterations))"
  by pat_completeness auto
termination
  by (relation "measure (\<lambda>(z, byOrder, created, sortedTasks, maxIterations, tm, tasksToProcess, iterations).
        nat (maxIterations - iterations))") auto

declare timelineLoop.simps [simp del]

text \<open>\<open>calculateReferenceTimeline\<close>, run in the zone \<open>z\<close> of the browser; the second
  component is the number of passes.\<close>

definition referenceTimelineRun :: "zone \<Rightarrow> task list \<Rightarrow> jsDate \<Rightarrow> timeline \<times> int" where
  "referenceTimelineRun z tasks seasonCreationDate =
     (if tasks = [] then (Map.empty, 0)
      else
        let sortedTasks = sortTasks tasks
        in timelineLoop z (tasksByOrder tasks) seasonCreationDate sortedTasks
             (int (length sortedTasks) + 5) Map.empty (int (length sortedTasks)) 0)"

definition calculateReferenceTimeline :: "zone \<Rightarrow> task list \<Rightarrow> jsDate \<Rightarrow> timeline" where
  "calculateReferenceTimeline z tasks seasonCreationDate =
     fst (referenceTimelineRun z tasks seasonCreationDate)"


subsection \<open>The precedence graph\<close>






text \<open>The end dates of the predecessors of a task that have an entry in a map.\<close>

definition predecessorEnds :: "task list \<Rightarrow> timeline \<Rightarrow> task \<Rightarrow> jsDate set" where
  "predecessorEnds tasks tm t =
     {d. \<exists>p \<in> set tasks. order p \<in> set (precedingTasks t)
           \<and> (\<exists>e. tm (task_id p) = Some e \<and> tl_end e = d)}"

definition validTimes :: "jsDate set \<Rightarrow> int set" where
  "validTimes D = {x. Valid x \<in> D}"

text \<open>The same graph as the resolver reads it, through its lookup from order code to
  task.\<close>

definition precedingEnd :: "(string \<rightharpoonup> task) \<Rightarrow> timeline \<Rightarrow> string \<Rightarrow> jsDate option" where
  "precedingEnd byOrder tm c =
     (case byOrder c of None \<Rightarrow> None | Some p \<Rightarrow> map_option tl_end (tm (task_id p)))"





inductive resolvable :: "(string \<rightharpoonup> task) \<Rightarrow> task \<Rightarrow> bool" for byOrder where
  resolvableI:
    "(\<And>c. c \<in> set (precedingTasks t) \<Longrightarrow> \<exists>p. byOrder c = Some p \<and> resolvable byOrder p)
     \<Longrightarrow> resolvable byOrder t"

subsection \<open>Invariants of the resolver\<close>

text \<open>
  A map is sound when every entry belongs to a resolvable task, starts at the date the
  scan of that task's predecessors yields on the map itself, and ends where
  \<open>addDays\<close> puts it. It is complete when every resolvable task has an entry.
\<close>

definition timelineSound ::
  "zone \<Rightarrow> (string \<rightharpoonup> task) \<Rightarrow> jsDate \<Rightarrow> task list \<Rightarrow> timeline \<Rightarrow> bool" where
  "timelineSound z byOrder created tasks tm \<longleftrightarrow>
     dom tm \<subseteq> task_id ` set tasks \<and>
     (\<forall>t \<in> set tasks. \<forall>e. tm (task_id t) = Some e \<longrightarrow>
        resolvable byOrder t
        \<and> scanPreceding byOrder tm (precedingTasks t) created = Some (tl_start e)
        \<and> tl_end e = addDays z (tl_start e) (leadTime t))"

definition loopInv ::
  "(timeline \<Rightarrow> bool) \<Rightarrow> task list \<Rightarrow> timeline \<Rightarrow> int \<Rightarrow> int \<Rightarrow> bool" where
  "loopInv I tasks tm tasksToProcess iterations \<longleftrightarrow>
     I tm \<and> finite (dom tm)
     \<and> tasksToProcess = int (length tasks) - int (card (dom tm))
     \<and> 0 \<le> iterations \<and> iterations + tasksToProcess \<le> int (length tasks)"

definition timelineComplete :: "(string \<rightharpoonup> task) \<Rightarrow> task list \<Rightarrow> timeline \<Rightarrow> bool" where
  "timelineComplete byOrder tasks tm \<longleftrightarrow>
     (\<forall>t \<in> set tasks. resolvable byOrder t \<longrightarrow> tm (task_id t) \<noteq> None)"

section \<open>Actionability\<close>

definition isTaskActionable :: "task option \<Rightarrow> task list option \<Rightarrow> bool" where
  "isTaskActionable task allTasks =
     (case task of
        None \<Rightarrow> False
      | Some t \<Rightarrow>
          if status t = ''completed'' \<or> status t = ''blocked'' then False
          else if precedingTasks t = [] then True
          else
            (case allTasks of
               None \<Rightarrow> False
             | Some ts \<Rightarrow>
                 list_all
                   (\<lambda>precedingTaskOrder.
                      case find (\<lambda>x. order x = precedingTaskOrder) ts of
                        None \<Rightarrow> False
                      | Some precedingTask \<Rightarrow> status precedingTask = ''completed'')
                   (precedingTasks t)))"

section \<open>Edit permission\<close>

definition isAdminOrPlannerRole :: "string option \<Rightarrow> bool" where
  "isAdminOrPlannerRole userRole = (userRole = Some ''admin'' \<or> userRole = Some ''planner'')"

text \<open>\<open>task.status ? task.status.toLowerCase() : null\<close>.\<close>

definition taskStatusLower :: "task \<Rightarrow> string option" where
  "taskStatusLower t = (if status t = [] then None else Some (toLowerCase (status t)))"

text \<open>The \<open>for\<close> loop of \<open>handleEditClick\<close> over \<open>task.precedingTasks\<close>: the result is
  \<open>predecessorsDone\<close>. A code that names no task is passed over.\<close>

fun predecessorsDone :: "(string \<rightharpoonup> task) \<Rightarrow> string list \<Rightarrow> bool" where
  "predecessorsDone tasksMap [] = True"
| "predecessorsDone tasksMap (predOrder # rest) =
     (case tasksMap predOrder of
        None \<Rightarrow> predecessorsDone tasksMap rest
      | Some predecessor \<Rightarrow>
          if status predecessor \<noteq> ''completed'' then False
          else predecessorsDone tasksMap rest)"

definition showAlert :: "string \<Rightarrow> string \<Rightarrow> pageState \<Rightarrow> pageState" where
  "showAlert msg sev st = st\<lparr>alertInfo := \<lparr>alert_open = True, message = msg, severity = sev\<rparr>\<rparr>"

text \<open>\<open>task.responsible.includes(currentUser?.department)\<close>: only a department that
  is itself a string can be equal to a member of the list.\<close>

definition responsibleIncludes :: "task \<Rightarrow> user option \<Rightarrow> bool" where
  "responsibleIncludes t currentUser =
     (case currentUser of
        None \<Rightarrow> False
      | Some u \<Rightarrow>
          (case department u of
             Some (DeptString d) \<Rightarrow> d \<in> set (responsible t)
           | _ \<Rightarrow> False))"

definition handleEditClick ::
  "user option \<Rightarrow> task list option \<Rightarrow> string \<Rightarrow> task option \<Rightarrow> pageState \<Rightarrow> pageState" where
  "handleEditClick currentUser taskList rowId task st =
     (let userRole = (case currentUser of None \<Rightarrow> None | Some u \<Rightarrow> map_option toLowerCase (role u));
          isAdminOrPlanner = isAdminOrPlannerRole userRole
      in case task of
           None \<Rightarrow> showAlert ''Task data not found.'' ''error'' st
         | Some t \<Rightarrow>
             if taskStatusLower t = Some ''completed'' \<and> \<not> isAdminOrPlanner then
               showAlert ''Completed tasks can only be modified by Admin or Planner roles.'' ''warning'' st
             else if taskStatusLower t = Some ''blocked'' then
               showAlert ''Blocked tasks cannot be edited.'' ''warning'' st
             else if taskStatusLower t = Some ''pending''
                     \<and> (case taskList of
                            None \<Rightarrow> False
                          | Some ts \<Rightarrow> \<not> predecessorsDone (tasksByOrder ts) (precedingTasks t)) then
               showAlert ''This task is not yet actionable as preceding tasks are not complete.'' ''warning'' st
             else if taskStatusLower t = Some ''pending'' \<and> taskList = None then
               showAlert ''Cannot determine task actionability: task list unavailable.'' ''error'' st
             else if \<not> isAdminOrPlanner \<and> \<not> responsibleIncludes t currentUser then
               showAlert ''Your department is not allowed to edit this task.'' ''warning'' st
             else
               st\<lparr>alertInfo := \<lparr>alert_open = False, message = [], severity = ''info''\<rparr>,
                  rowModesModel := (rowModesModel st)(rowId \<mapsto> Edit ''actualCompletion'')\<rparr>)"

text \<open>\<open>currentUser?.department?.name.toLowerCase()\<close>: an absent department gives
  \<open>undefined\<close>; a department without a \<open>name\<close> raises.\<close>

definition userDepartmentLower :: "user \<Rightarrow> js_error + string option" where
  "userDepartmentLower u =
     (case department u of
        None \<Rightarrow> Inr None
      | Some (DeptString d) \<Rightarrow> Inl TypeError
      | Some (DeptObject None) \<Rightarrow> Inl TypeError
      | Some (DeptObject (Some n)) \<Rightarrow> Inr (Some (toLowerCase n)))"

definition isCellEditable ::
  "bool \<Rightarrow> user option \<Rightarrow> season option \<Rightarrow> task \<Rightarrow> js_error + bool" where
  "isCellEditable authLoading currentUser seasonDetails row =
     (case (currentUser, seasonDetails) of
        (Some u, Some s) \<Rightarrow>
          if authLoading then Inr False
          else if season_status s \<noteq> ''Open'' then Inr False
          else
            (case role u of
               None \<Rightarrow> Inl TypeError
             | Some r \<Rightarrow>
                 let isAdminOrPlanner = isAdminOrPlannerRole (Some (toLowerCase r))
                 in if taskStatusLower row = Some ''completed'' \<and> \<not> isAdminOrPlanner then Inr False
                    else
                      (case userDepartmentLower u of
                         Inl e \<Rightarrow> Inl e
                       | Inr userDepartment \<Rightarrow>
                           Inr (isAdminOrPlanner \<or>
                                (case userDepartment of
                                   None \<Rightarrow> False
                                 | Some d \<Rightarrow> d \<in> set (map toLowerCase (responsible row))))))
      | _ \<Rightarrow> Inr False)"

text \<open>
  The Edit action of a row: the item is rendered with
  \<open>disabled={!isCellEditable(params)}\<close> and \<open>onClick\<close> calling \<open>handleEditClick\<close>, so a
  click reaches \<open>handleEditClick\<close> only when \<open>isCellEditable\<close> is true.
\<close>

definition editActionClick ::
  "bool \<Rightarrow> user option \<Rightarrow> season option \<Rightarrow> task list option \<Rightarrow> task \<Rightarrow> pageState
     \<Rightarrow> js_error + pageState" where
  "editActionClick authLoading currentUser seasonDetails taskList row st =
     (case isCellEditable authLoading currentUser seasonDetails row of
        Inl e \<Rightarrow> Inl e
      | Inr False \<Rightarrow> Inr st
      | Inr True \<Rightarrow> Inr (handleEditClick currentUser taskList (task_id row) (Some row) st))"

text \<open>
  \<open>handleCellDoubleClick\<close>: the second component is \<open>event.defaultMuiPrevented\<close>. When
  it is false the grid goes on with its own handling of the double click.
\<close>

definition handleCellDoubleClick ::
  "user option \<Rightarrow> string \<Rightarrow> task option \<Rightarrow> pageState \<Rightarrow> pageState \<times> bool" where
  "handleCellDoubleClick currentUser field row st =
     (if field \<notin> set [''actualCompletion'', ''remarks''] then (st, False)
      else
        let userRole = (case currentUser of None \<Rightarrow> None | Some u \<Rightarrow> map_option toLowerCase (role u));
            isAdminOrPlanner = isAdminOrPlannerRole userRole;
            statusLower = (case row of None \<Rightarrow> None | Some t \<Rightarrow> taskStatusLower t)
        in if statusLower = Some ''completed'' \<and> \<not> isAdminOrPlanner then
             (showAlert ''Completed tasks can only be modified by Admin or Planner roles.'' ''warning'' st,
              True)
           else (st, False))"

section \<open>Edit validation\<close>

text \<open>
  The payload object: a field is \<open>None\<close> when its key is absent; \<open>p_actualCompletion\<close>
  is \<open>Some None\<close> when the key is present with the value \<open>null\<close>.
\<close>

record apiPayload =
  p_remarks :: "string option option"
  p_actualCompletion :: "date option option"
  p_status :: "string option"

definition payloadKeys :: "apiPayload \<Rightarrow> nat" where
  "payloadKeys p =
     (if p_remarks p = None then 0 else 1)
     + (if p_actualCompletion p = None then 0 else 1)
     + (if p_status p = None then 0 else 1)"

text \<open>\<open>newRow.computedDates?.start\<close>.\<close>

definition computedStart :: "task \<Rightarrow> date option" where
  "computedStart t = (case computedDates t of None \<Rightarrow> None | Some cd \<Rightarrow> cd_start cd)"

text \<open>
  What \<open>handleProcessRowUpdate\<close> does up to the call of the persistence service, in
  the zone \<open>z\<close> of the browser: it rejects with \<open>Error('Invalid date')\<close>, returns the old
  row, or calls \<open>updateTaskInSeason\<close> with the row's id and the payload.
\<close>

datatype rowUpdate = RejectInvalidDate | ReturnOldRow task | CallUpdateTask string apiPayload

definition handleProcessRowUpdate ::
  "zone \<Rightarrow> task \<Rightarrow> task \<Rightarrow> pageState \<Rightarrow> pageState \<times> rowUpdate" where
  "handleProcessRowUpdate z newRow oldRow st =
     (let payload1 = \<lparr>p_remarks = (if remarks newRow \<noteq> remarks oldRow then Some (remarks newRow) else None),
                      p_actualCompletion = None, p_status = None\<rparr>;
          oldCompletion = actualCompletion oldRow;
          newCompletion = actualCompletion newRow
      in if newCompletion \<noteq> oldCompletion
            \<and> (case (newCompletion, computedStart newRow) of
                 (Some c, Some s) \<Rightarrow> isBeforeDay z c s
               | _ \<Rightarrow> False)
         then
           (showAlert ''Actual completion date cannot be earlier than the start date.'' ''error'' st,
            RejectInvalidDate)
         else
           let payload2 = (if newCompletion \<noteq> oldCompletion
                           then payload1\<lparr>p_actualCompletion := Some newCompletion\<rparr> else payload1);
               payload3 = (if (case p_actualCompletion payload2 of Some (Some c) \<Rightarrow> True | _ \<Rightarrow> False)
                              \<and> status newRow \<noteq> ''completed''
                           then payload2\<lparr>p_status := Some ''completed''\<rparr> else payload2)
           in if payloadKeys payload3 = 0 then (st, ReturnOldRow oldRow)
              else (st\<lparr>isUpdating := True\<rparr>, CallUpdateTask (task_id newRow) payload3))"

section \<open>Remarks\<close>

text \<open>\<open>handleRemarkUpdate\<close> up to the call of the persistence service: the payload
  holds the new remarks and nothing of the row is tested.\<close>

definition handleRemarkUpdate :: "task \<Rightarrow> string \<Rightarrow> pageState \<Rightarrow> pageState \<times> rowUpdate" where
  "handleRemarkUpdate row newRemarks st =
     (st\<lparr>isUpdating := True\<rparr>,
      CallUpdateTask (task_id row)
        \<lparr>p_remarks = Some (Some newRemarks), p_actualCompletion = None, p_status = None\<rparr>)"

text \<open>
  Saving from the remarks cell: the column renders \<open>RemarksCell\<close> with
  \<open>isEditable = isCellEditable(params)\<close>; \<open>RemarksModal\<close> shows the text field and the
  Save button only when \<open>isEditable\<close>, and Save calls \<open>handleRemarkUpdate\<close> with the row
  and the edited text. Without the button nothing is sent.
\<close>

definition remarksCellSave ::
  "bool \<Rightarrow> user option \<Rightarrow> season option \<Rightarrow> task \<Rightarrow> string \<Rightarrow> pageState
     \<Rightarrow> js_error + pageState \<times> rowUpdate option" where
  "remarksCellSave authLoading currentUser seasonDetails row editedRemarks st =
     (case isCellEditable authLoading currentUser seasonDetails row of
        Inl e \<Rightarrow> Inl e
      | Inr False \<Rightarrow> Inr (st, None)
      | Inr True \<Rightarrow>
          (case handleRemarkUpdate row editedRemarks st of
             (st', update) \<Rightarrow> Inr (st', Some update)))"

section \<open>Example data\<close>

definition utcZone :: zone where
  "utcZone = fixedZone 0"

definition utcPlus8 :: zone where
  "utcPlus8 = fixedZone 28800000"

text \<open>A zone five hours behind UTC until 1710054000000 (10 March 2024, 07:00 UTC) and
  four hours behind from then on; a local time in the skipped hour is read with the
  earlier offset.\<close>

definition springForward :: zone where
  "springForward =
     \<lparr>toLocal = (\<lambda>t. if t < 1710054000000 then t - 18000000 else t - 14400000),
      toUTC = (\<lambda>l. if l < 1710039600000 then l + 18000000 else l + 14400000)\<rparr>"

definition idleState :: pageState where
  "idleState =
     \<lparr>alertInfo = \<lparr>alert_open = False, message = [], severity = ''info''\<rparr>,
      rowModesModel = Map.empty, isUpdating = False\<rparr>"

definition adminUser :: user where
  "adminUser = \<lparr>role = Some ''Admin'', department = None\<rparr>"


definition openSeason :: season where
  "openSeason = \<lparr>season_status = ''Open'', createdAt = 0\<rparr>"


text \<open>Task A (5 days, no predecessor) and task B (3 days, after A).\<close>

definition taskA :: task where
  "taskA = (taskWithOrder ''A'')\<lparr>leadTime := 5\<rparr>"

definition taskB :: task where
  "taskB = (taskWithOrder ''B'')\<lparr>leadTime := 3, precedingTasks := [''A'']\<rparr>"



definition taskE :: task where
  "taskE = (taskWithOrder ''E'')\<lparr>leadTime := 1, precedingTasks := [''Q'']\<rparr>"


definition blockedTask :: task where
  "blockedTask = taskA\<lparr>status := ''blocked''\<rparr>"

definition longTask :: task where
  "longTask = (taskWithOrder ''A'')\<lparr>leadTime := 200000000\<rparr>"

section \<open>Facts about the display order\<close>

lemma localeCompare_antisym: "localeCompare b a = - localeCompare a b"
  by (induction a b rule: localeCompare.induct) auto

lemma localeCompare_trans:
  "localeCompare a b \<le> 0 \<Longrightarrow> localeCompare b c \<le> 0 \<Longrightarrow> localeCompare a c \<le> 0"
proof (induction a b arbitrary: c rule: localeCompare.induct)
  case 1
  then show ?case by simp
next
  case (2 y ys)
  then show ?case by (cases c) auto
next
  case (3 x xs)
  then show ?case by simp
next
  case (4 x xs y ys)
  show ?case
  proof (cases c)
    case Nil
    with "4.prems" show ?thesis by simp
  next
    case (Cons z zs)
    have xy: "(of_char x :: nat) \<le> of_char y"
      using "4.prems"(1) by (simp split: if_splits)
    have yz: "(of_char y :: nat) \<le> of_char z"
      using "4.prems"(2) Cons by (simp split: if_splits)
    show ?thesis
    proof (cases "(of_char x :: nat) < of_char z")
      case True
      with Cons show ?thesis by simp
    next
      case False
      with xy yz have e: "(of_char x :: nat) = of_char y" "(of_char y :: nat) = of_char z"
        by linarith+
      have "localeCompare xs ys \<le> 0" using "4.prems"(1) e by simp
      moreover have "localeCompare ys zs \<le> 0" using "4.prems"(2) e Cons by simp
      ultimately have "localeCompare xs zs \<le> 0"
        using "4.IH"[of zs] e by simp
      with e Cons show ?thesis by simp
    qed
  qed
qed

lemma orderComparator_trans:
  "orderComparator a b \<le> 0 \<Longrightarrow> orderComparator b c \<le> 0 \<Longrightarrow> orderComparator a c \<le> 0"
  unfolding orderComparator_def
  using localeCompare_trans[of "order a" "order b" "order c"]
  by (auto split: if_splits)

lemma orderComparator_total: "orderComparator a b > 0 \<Longrightarrow> orderComparator b a \<le> 0"
  unfolding orderComparator_def using localeCompare_antisym[of "order a" "order b"]
  by (auto split: if_splits)

lemma set_insertBy: "set (insertBy cmp x xs) = insert x (set xs)"
  by (induction xs) auto

lemma set_sortBy: "set (sortBy cmp xs) = set xs"
  by (induction xs) (auto simp: set_insertBy)

lemma length_insertBy: "length (insertBy cmp x xs) = Suc (length xs)"
  by (induction xs) auto

lemma length_sortBy: "length (sortBy cmp xs) = length xs"
  by (induction xs) (auto simp: length_insertBy)

lemma sorted_insertBy_order:
  "sorted_wrt (\<lambda>a b. orderComparator a b \<le> 0) xs \<Longrightarrow>
   sorted_wrt (\<lambda>a b. orderComparator a b \<le> 0) (insertBy orderComparator x xs)"
proof (induction xs)
  case Nil
  then show ?case by simp
next
  case (Cons y ys)
  show ?case
  proof (cases "orderComparator x y \<le> 0")
    case True
    with Cons.prems show ?thesis
      by (auto intro: orderComparator_trans)
  next
    case False
    then have "orderComparator y x \<le> 0" using orderComparator_total[of x y] by simp
    with False Cons show ?thesis
      by (auto simp: set_insertBy)
  qed
qed

lemma sorted_sortTasks: "sorted_wrt (\<lambda>a b. orderComparator a b \<le> 0) (sortTasks ts)"
  unfolding sortTasks_def by (induction ts) (auto intro: sorted_insertBy_order)

lemma mset_insertBy: "mset (insertBy cmp x xs) = add_mset x (mset xs)"
  by (induction xs) auto

lemma mset_sortBy: "mset (sortBy cmp xs) = mset xs"
  by (induction xs) (auto simp: mset_insertBy)

text \<open>
  Claim C8. The comparator of the display order puts a shorter order code before a longer
  one and compares codes of equal length lexicographically; the sorted list is a
  permutation of the tasks in which no task is put after a later one by the comparator;
  and the codes Z, AA, B, A are sorted to A, B, Z, AA.
\<close>

theorem display_order_comparator:
  "(length (order a) < length (order b) \<longrightarrow> orderComparator a b < 0 \<and> orderComparator b a > 0)
   \<and> (length (order a) = length (order b) \<longrightarrow>
        orderComparator a b = localeCompare (order a) (order b))
   \<and> sorted_wrt (\<lambda>x y. orderComparator x y \<le> 0) (sortTasks ts)
   \<and> mset (sortTasks ts) = mset ts
   \<and> map order (sortTasks (map taskWithOrder [''Z'', ''AA'', ''B'', ''A''])) =
        [''A'', ''B'', ''Z'', ''AA'']"
proof (intro conjI impI)
  show "sorted_wrt (\<lambda>x y. orderComparator x y \<le> 0) (sortTasks ts)"
    by (rule sorted_sortTasks)
  show "mset (sortTasks ts) = mset ts"
    by (simp add: sortTasks_def mset_sortBy)
  show "map order (sortTasks (map taskWithOrder [''Z'', ''AA'', ''B'', ''A''])) =
        [''A'', ''B'', ''Z'', ''AA'']"
    by (simp add: sortTasks_def taskWithOrder_def orderComparator_def)
qed (simp_all add: orderComparator_def)

theorem display_order_comparator_witness:
  "length (order (taskWithOrder ''Z'')) < length (order (taskWithOrder ''AA''))
   \<and> orderComparator (taskWithOrder ''Z'') (taskWithOrder ''AA'') < 0
   \<and> length (order (taskWithOrder ''B'')) = length (order (taskWithOrder ''A''))
   \<and> orderComparator (taskWithOrder ''B'') (taskWithOrder ''A'') = 1"
  using display_order_comparator[of "taskWithOrder ''Z''" "taskWithOrder ''AA''" "[]"]
    display_order_comparator[of "taskWithOrder ''B''" "taskWithOrder ''A''" "[]"]
  by (simp add: taskWithOrder_def)

section \<open>Facts about the reference timeline\<close>

subsection \<open>The scan of the predecessors\<close>

lemma scanPreceding_mono:
  "tm \<subseteq>\<^sub>m tm' \<Longrightarrow> scanPreceding B tm cs mx = Some s \<Longrightarrow> scanPreceding B tm' cs mx = Some s"
proof (induction cs arbitrary: mx)
  case Nil
  then show ?case by simp
next
  case (Cons c cs)
  from Cons.prems(2) obtain p e where pe: "B c = Some p" "tm (task_id p) = Some e"
    and rest: "scanPreceding B tm cs (if isAfter (tl_end e) mx then tl_end e else mx) = Some s"
    by (auto split: option.splits)
  from pe(2) Cons.prems(1) have "tm' (task_id p) = Some e"
    by (auto simp: map_le_def dom_def)
  with pe(1) Cons.IH[OF Cons.prems(1) rest] show ?case by simp
qed

lemma scanPreceding_resolved:
  "scanPreceding B tm cs mx = Some s \<Longrightarrow> c \<in> set cs \<Longrightarrow>
   \<exists>p e. B c = Some p \<and> tm (task_id p) = Some e"
  by (induction cs arbitrary: mx) (auto split: option.splits)

lemma scanPreceding_defined:
  "(\<And>c. c \<in> set cs \<Longrightarrow> \<exists>p e. B c = Some p \<and> tm (task_id p) = Some e) \<Longrightarrow>
   \<exists>s. scanPreceding B tm cs mx = Some s"
proof (induction cs arbitrary: mx)
  case Nil
  then show ?case by simp
next
  case (Cons c cs)
  from Cons.prems[of c] obtain p e where pe: "B c = Some p" "tm (task_id p) = Some e"
    by auto
  have "\<exists>s. scanPreceding B tm cs (if isAfter (tl_end e) mx then tl_end e else mx) = Some s"
  proof (rule Cons.IH)
    fix c' assume "c' \<in> set cs"
    then show "\<exists>p e. B c' = Some p \<and> tm (task_id p) = Some e"
      using Cons.prems[of c'] by simp
  qed
  with pe show ?case by simp
qed

lemma finite_validEnds: "finite {x. \<exists>c \<in> set cs. f c = Some (Valid x)}"
proof -
  have "{x. \<exists>c \<in> set cs. f c = Some (Valid x)}
        \<subseteq> (\<lambda>c. case f c of Some (Valid x) \<Rightarrow> x | _ \<Rightarrow> 0) ` set cs"
    by force
  then show ?thesis by (rule finite_subset) simp
qed

text \<open>The scan keeps an invalid starting date; from a valid one it yields the maximum of
  that date and the valid end dates it meets.\<close>

lemma isAfter_Invalid: "isAfter a Invalid = False"
  by (cases a) (simp_all add: isAfter_def)

lemma scanPreceding_Invalid:
  "scanPreceding B tm cs Invalid = Some s \<Longrightarrow> s = Invalid"
  by (induction cs) (auto simp: isAfter_Invalid split: option.splits)

lemma scanPreceding_Max:
  "scanPreceding B tm cs (Valid m) = Some s \<Longrightarrow>
   s = Valid (Max (insert m {x. \<exists>c \<in> set cs. precedingEnd B tm c = Some (Valid x)}))"
proof (induction cs arbitrary: m)
  case Nil
  then show ?case by simp
next
  case (Cons c cs)
  let ?S = "{x. \<exists>c \<in> set cs. precedingEnd B tm c = Some (Valid x)}"
  from Cons.prems obtain p e where pe: "B c = Some p" "tm (task_id p) = Some e"
    and rest: "scanPreceding B tm cs (if isAfter (tl_end e) (Valid m) then tl_end e else Valid m) = Some s"
    by (auto split: option.splits)
  have pc: "precedingEnd B tm c = Some (tl_end e)"
    using pe by (simp add: precedingEnd_def)
  have fin: "finite ?S" by (rule finite_validEnds)
  show ?case
  proof (cases "tl_end e")
    case Invalid
    with pc have S: "{x. \<exists>c' \<in> set (c # cs). precedingEnd B tm c' = Some (Valid x)} = ?S"
      by auto
    from rest Invalid have "scanPreceding B tm cs (Valid m) = Some s"
      by (simp add: isAfter_def)
    from Cons.IH[OF this] S show ?thesis by simp
  next
    case (Valid y)
    with pc have S: "{x. \<exists>c' \<in> set (c # cs). precedingEnd B tm c' = Some (Valid x)} = insert y ?S"
      by auto
    have "(if isAfter (tl_end e) (Valid m) then tl_end e else Valid m) = Valid (max m y)"
      using Valid by (simp add: isAfter_def max_def)
    with rest have "scanPreceding B tm cs (Valid (max m y)) = Some s"
      by simp
    from Cons.IH[OF this] have "s = Valid (Max (insert (max m y) ?S))" .
    also have "Max (insert (max m y) ?S) = Max (insert m (insert y ?S))"
    proof (cases "?S = {}")
      case True
      then show ?thesis by (simp add: max.commute)
    next
      case False
      with fin show ?thesis by (simp add: max.assoc)
    qed
    finally show ?thesis using S by simp
  qed
qed

lemma processTask_cases:
  "(processTask z B cr t (tm, k) = (tm, k)
      \<and> (tm (task_id t) \<noteq> None \<or> scanPreceding B tm (precedingTasks t) cr = None))
   \<or> (tm (task_id t) = None
      \<and> (\<exists>s. scanPreceding B tm (precedingTasks t) cr = Some s
            \<and> processTask z B cr t (tm, k) =
                (tm(task_id t \<mapsto> \<lparr>tl_start = s, tl_end = addDays z s (leadTime t)\<rparr>), k + 1)))"
  by (auto simp: processTask_def split: option.splits)

lemma processTask_sound:
  assumes inj: "inj_on task_id (set tasks)"
    and ran: "\<And>c p. B c = Some p \<Longrightarrow> p \<in> set tasks"
    and t: "t \<in> set tasks"
    and snd: "timelineSound z B cr tasks tm"
    and step: "processTask z B cr t (tm, k) = (tm', k')"
  shows "timelineSound z B cr tasks tm'"
proof -
  consider (skip) "tm' = tm"
    | (add) s where "tm (task_id t) = None" "scanPreceding B tm (precedingTasks t) cr = Some s"
        "tm' = tm(task_id t \<mapsto> \<lparr>tl_start = s, tl_end = addDays z s (leadTime t)\<rparr>)"
    using processTask_cases[of z B cr t tm k] step by auto
  then show ?thesis
  proof cases
    case skip
    with snd show ?thesis by simp
  next
    case add
    have le: "tm \<subseteq>\<^sub>m tm'"
      using add(1,3) by (auto simp: map_le_def)
    have res: "resolvable B t"
    proof (rule resolvableI)
      fix c assume "c \<in> set (precedingTasks t)"
      with add(2) obtain p e where pe: "B c = Some p" "tm (task_id p) = Some e"
        using scanPreceding_resolved by blast
      from pe(1) have "p \<in> set tasks" by (rule ran)
      with pe(2) snd have "resolvable B p" by (auto simp: timelineSound_def)
      with pe(1) show "\<exists>p. B c = Some p \<and> resolvable B p" by blast
    qed
    have dom: "dom tm' \<subseteq> task_id ` set tasks"
      using snd t add(3) by (auto simp: timelineSound_def)
    have ent: "resolvable B u
        \<and> scanPreceding B tm' (precedingTasks u) cr = Some (tl_start e)
        \<and> tl_end e = addDays z (tl_start e) (leadTime u)"
      if u: "u \<in> set tasks" and e: "tm' (task_id u) = Some e" for u e
    proof (cases "task_id u = task_id t")
      case True
      with inj u t have ut: "u = t" by (auto dest: inj_onD)
      from e True add(3) have ev: "e = \<lparr>tl_start = s, tl_end = addDays z s (leadTime t)\<rparr>"
        by simp
      from scanPreceding_mono[OF le add(2)] ev ut res show ?thesis by simp
    next
      case False
      with e add(3) have old: "tm (task_id u) = Some e" by simp
      with snd u have o: "resolvable B u"
        "scanPreceding B tm (precedingTasks u) cr = Some (tl_start e)"
        "tl_end e = addDays z (tl_start e) (leadTime u)"
        by (auto simp: timelineSound_def)
      from scanPreceding_mono[OF le o(2)] o show ?thesis by simp
    qed
    from dom ent show ?thesis unfolding timelineSound_def by blast
  qed
qed

lemma processTask_dom:
  assumes "t \<in> set tasks" and "dom tm \<subseteq> task_id ` set tasks"
    and "processTask z B cr t (tm, k) = (tm', k')"
  shows "dom tm' \<subseteq> task_id ` set tasks"
proof -
  have "dom tm' \<subseteq> insert (task_id t) (dom tm)"
    using processTask_cases[of z B cr t tm k] assms(3) by auto
  with assms(1,2) show ?thesis by blast
qed

lemma fold_processTask_pres:
  assumes pres: "\<And>t tm k tm' k'. t \<in> set tasks \<Longrightarrow> I tm \<Longrightarrow>
                   processTask z B cr t (tm, k) = (tm', k') \<Longrightarrow> I tm'"
  shows "set xs \<subseteq> set tasks \<Longrightarrow> I tm \<Longrightarrow>
         fold (processTask z B cr) xs (tm, k) = (tm', k') \<Longrightarrow> I tm'"
proof (induction xs arbitrary: tm k)
  case Nil
  then show ?case by simp
next
  case (Cons x xs)
  obtain tm1 k1 where step: "processTask z B cr x (tm, k) = (tm1, k1)"
    by (cases "processTask z B cr x (tm, k)")
  have "I tm1"
    using pres[OF _ Cons.prems(2) step] Cons.prems(1) by simp
  moreover have "fold (processTask z B cr) xs (tm1, k1) = (tm', k')"
    using Cons.prems(3) step by simp
  ultimately show ?case
    using Cons.IH[of tm1 k1] Cons.prems(1) by simp
qed

text \<open>What a pass does to the domain of the map and to the counter.\<close>

lemma fold_processTask_count:
  "finite (dom tm) \<Longrightarrow> fold (processTask z B cr) xs (tm, k) = (tm', k') \<Longrightarrow>
   finite (dom tm') \<and> tm \<subseteq>\<^sub>m tm' \<and> k \<le> k'
   \<and> int (card (dom tm')) = int (card (dom tm)) + (k' - k)"
proof (induction xs arbitrary: tm k)
  case Nil
  then show ?case by simp
next
  case (Cons x xs)
  obtain tm1 k1 where step: "processTask z B cr x (tm, k) = (tm1, k1)"
    by (cases "processTask z B cr x (tm, k)")
  have one: "finite (dom tm1) \<and> tm \<subseteq>\<^sub>m tm1 \<and> k \<le> k1
      \<and> int (card (dom tm1)) = int (card (dom tm)) + (k1 - k)"
    using processTask_cases[of z B cr x tm k] step Cons.prems(1)
    by (auto simp: map_le_def domIff)
  have rest: "fold (processTask z B cr) xs (tm1, k1) = (tm', k')"
    using Cons.prems(2) step by simp
  from Cons.IH[OF _ rest] one
  have "finite (dom tm') \<and> tm1 \<subseteq>\<^sub>m tm' \<and> k1 \<le> k'
      \<and> int (card (dom tm')) = int (card (dom tm1)) + (k' - k1)"
    by simp
  with one show ?case
    by (auto intro: map_le_trans)
qed

text \<open>A pass that processes nothing leaves the map as it is, and no task of the pass
  could be calculated.\<close>

lemma fold_processTask_idle:
  "finite (dom tm) \<Longrightarrow> fold (processTask z B cr) xs (tm, k) = (tm', k) \<Longrightarrow>
   tm' = tm \<and> (\<forall>t \<in> set xs. tm (task_id t) \<noteq> None
                    \<or> scanPreceding B tm (precedingTasks t) cr = None)"
proof (induction xs arbitrary: tm)
  case Nil
  then show ?case by simp
next
  case (Cons x xs)
  obtain tm1 k1 where step: "processTask z B cr x (tm, k) = (tm1, k1)"
    by (cases "processTask z B cr x (tm, k)")
  have rest: "fold (processTask z B cr) xs (tm1, k1) = (tm', k)"
    using Cons.prems(2) step by simp
  have fin1: "finite (dom tm1)" and "k \<le> k1"
    using fold_processTask_count[of tm z B cr "[x]" k tm1 k1] step Cons.prems(1) by simp_all
  moreover have "k1 \<le> k"
    using fold_processTask_count[OF fin1 rest] by simp
  ultimately have k1: "k1 = k" by simp
  with processTask_cases[of z B cr x tm k] step
  have skip: "tm1 = tm" "tm (task_id x) \<noteq> None \<or> scanPreceding B tm (precedingTasks x) cr = None"
    by auto
  from Cons.IH[OF Cons.prems(1)] rest skip(1) k1
  have "tm' = tm \<and> (\<forall>t \<in> set xs. tm (task_id t) \<noteq> None
                    \<or> scanPreceding B tm (precedingTasks t) cr = None)"
    by simp
  with skip(2) show ?case by simp
qed

lemma idle_complete:
  assumes ran: "\<And>c p. B c = Some p \<Longrightarrow> p \<in> set tasks"
    and idle: "\<forall>t \<in> set tasks. tm (task_id t) \<noteq> None
                 \<or> scanPreceding B tm (precedingTasks t) cr = None"
  shows "timelineComplete B tasks tm"
proof -
  have "resolvable B t \<Longrightarrow> t \<in> set tasks \<Longrightarrow> tm (task_id t) \<noteq> None" for t
  proof (induction rule: resolvable.induct)
    case (resolvableI t)
    have "\<exists>s. scanPreceding B tm (precedingTasks t) cr = Some s"
    proof (rule scanPreceding_defined)
      fix c assume "c \<in> set (precedingTasks t)"
      with resolvableI.IH obtain p where p: "B c = Some p" "p \<in> set tasks \<longrightarrow> tm (task_id p) \<noteq> None"
        by blast
      from p(1) have "p \<in> set tasks" by (rule ran)
      with p show "\<exists>p e. B c = Some p \<and> tm (task_id p) = Some e" by auto
    qed
    with idle resolvableI.prems show ?case by auto
  qed
  then show ?thesis by (simp add: timelineComplete_def)
qed

lemma full_complete:
  assumes dom: "dom tm \<subseteq> task_id ` set tasks"
    and card: "int (length tasks) \<le> int (card (dom tm))"
  shows "timelineComplete B tasks tm"
proof -
  have "card (task_id ` set tasks) \<le> length tasks"
    by (metis card_image_le card_length le_trans List.finite_set)
  with card have "card (task_id ` set tasks) \<le> card (dom tm)" by simp
  with dom have "dom tm = task_id ` set tasks"
    by (simp add: card_seteq)
  then show ?thesis by (auto simp: timelineComplete_def)
qed


lemma dom_card_le:
  assumes "dom tm \<subseteq> task_id ` set tasks"
  shows "card (dom tm) \<le> length tasks"
proof -
  have "card (dom tm) \<le> card (task_id ` set tasks)"
    using assms by (auto intro: card_mono)
  also have "\<dots> \<le> card (set tasks)" by (simp add: card_image_le)
  also have "\<dots> \<le> length tasks" by (rule card_length)
  finally show ?thesis .
qed

text \<open>
  The loop, for any property \<open>I\<close> of the map that every processed task keeps: the
  final map has the property, holds every resolvable task, and at most as many passes
  are made as there are tasks.
\<close>

lemma timelineLoop_correct:
  assumes domI: "\<And>tm. I tm \<Longrightarrow> dom tm \<subseteq> task_id ` set tasks"
  shows "(\<forall>t tm k tm' k'. t \<in> set tasks \<longrightarrow> I tm \<longrightarrow>
            processTask z B cr t (tm, k) = (tm', k') \<longrightarrow> I tm') \<Longrightarrow>
     (\<forall>c p. B c = Some p \<longrightarrow> p \<in> set tasks) \<Longrightarrow>
     set xs = set tasks \<Longrightarrow> mx = int (length tasks) + 5 \<Longrightarrow>
     loopInv I tasks tm ttp it \<Longrightarrow>
     timelineLoop z B cr xs mx tm ttp it = (tmf, itf) \<Longrightarrow>
     I tmf \<and> timelineComplete B tasks tmf \<and> 0 \<le> itf \<and> itf \<le> int (length tasks)"
proof (induction z B cr xs mx tm ttp it rule: timelineLoop.induct)
  case (1 z B cr xs mx tm ttp it)
  note presA = "1.prems"(1) and ranA = "1.prems"(2) and srt = "1.prems"(3)
    and mx = "1.prems"(4) and inv = "1.prems"(5) and run = "1.prems"(6)
  from ranA have ran: "\<And>c p. B c = Some p \<Longrightarrow> p \<in> set tasks" by blast
  from inv have snd: "I tm" and fin: "finite (dom tm)"
    and ttp: "ttp = int (length tasks) - int (card (dom tm))"
    and it: "0 \<le> it" "it + ttp \<le> int (length tasks)"
    by (simp_all add: loopInv_def)
  have ttp0: "0 \<le> ttp" using dom_card_le[OF domI[OF snd]] ttp by simp
  show ?case
  proof (cases "ttp > 0 \<and> it < mx")
    case False
    with run have res: "tmf = tm" "itf = it"
      by (simp_all add: timelineLoop.simps[of z B cr xs mx tm ttp it])
    from False it mx ttp0 have "ttp \<le> 0" by linarith
    with ttp have "int (length tasks) \<le> int (card (dom tm))" by simp
    with domI[OF snd] have "timelineComplete B tasks tm"
      by (intro full_complete) simp_all
    with snd res it ttp0 show ?thesis by simp
  next
    case True
    obtain tm1 k where pass: "timelinePass z B cr xs tm = (tm1, k)"
      by (cases "timelinePass z B cr xs tm")
    then have fold: "fold (processTask z B cr) xs (tm, 0) = (tm1, k)"
      by (simp add: timelinePass_def)
    have snd1: "I tm1"
    proof (rule fold_processTask_pres[where tasks=tasks and I=I and z=z and B=B and cr=cr and xs=xs and tm=tm and k=0 and tm'=tm1 and k'=k])
      fix t tm k tm' k'
      assume "t \<in> set tasks" "I tm" "processTask z B cr t (tm, k) = (tm', k')"
      with presA show "I tm'" by blast
    next
      show "set xs \<subseteq> set tasks" using srt by simp
    qed (rule snd, rule fold)
    have cnt: "finite (dom tm1)" "0 \<le> k" "int (card (dom tm1)) = int (card (dom tm)) + k"
      using fold_processTask_count[OF fin fold] by simp_all
    show ?thesis
    proof (cases "k = 0 \<and> ttp - k > 0")
      case stop: True
      with run True pass have res: "tmf = tm1" "itf = it + 1"
        by (simp_all add: timelineLoop.simps[of z B cr xs mx tm ttp it])
      from stop fold fold_processTask_idle[OF fin, of z B cr xs 0 tm1]
      have idle: "tm1 = tm" "\<forall>t \<in> set xs. tm (task_id t) \<noteq> None
                    \<or> scanPreceding B tm (precedingTasks t) cr = None"
        by simp_all
      have "timelineComplete B tasks tm"
        using idle_complete[of B tasks tm cr] ran idle(2) srt by simp
      with snd1 idle(1) res it stop show ?thesis by simp
    next
      case go: False
      with True cnt(2) have k1: "1 \<le> k" by linarith
      have run': "timelineLoop z B cr xs mx tm1 (ttp - k) (it + 1) = (tmf, itf)"
        using run True pass go
        by (simp add: timelineLoop.simps[of z B cr xs mx tm ttp it])
      have inv': "loopInv I tasks tm1 (ttp - k) (it + 1)"
        using snd1 cnt ttp it k1 by (simp add: loopInv_def)
      show ?thesis
        using "1.IH"[OF True pass[symmetric] go presA ranA srt mx inv' run'] by simp
    qed
  qed
qed

subsection \<open>The precedence graph\<close>

lemma fold_byOrder:
  "fold (\<lambda>t m. m(order t \<mapsto> t)) xs m c = Some p \<Longrightarrow>
   (p \<in> set xs \<and> order p = c) \<or> m c = Some p"
  by (induction xs arbitrary: m) (fastforce split: if_splits)+

lemma tasksByOrder_Some:
  "tasksByOrder tasks c = Some p \<Longrightarrow> p \<in> set tasks \<and> order p = c"
  unfolding tasksByOrder_def using fold_byOrder[of tasks Map.empty c p] by simp








subsection \<open>The resolver as a whole\<close>

lemma set_sortTasks: "set (sortTasks tasks) = set tasks"
  by (simp add: sortTasks_def set_sortBy)

lemma length_sortTasks: "length (sortTasks tasks) = length tasks"
  by (simp add: sortTasks_def length_sortBy)

text \<open>The lookup of the resolver and the task list: a code is missing from the lookup
  exactly when no task has it, and with unique codes the lookup finds the task that has
  the code.\<close>

lemma fold_byOrder_None:
  "fold (\<lambda>t m. m(order t \<mapsto> t)) xs m c = None \<longleftrightarrow>
   m c = None \<and> (\<forall>p \<in> set xs. order p \<noteq> c)"
  by (induction xs arbitrary: m) auto

lemma tasksByOrder_None_iff:
  "tasksByOrder tasks c = None \<longleftrightarrow> (\<forall>p \<in> set tasks. order p \<noteq> c)"
  by (simp add: tasksByOrder_def fold_byOrder_None)

lemma tasksByOrder_Some_iff:
  assumes "distinct (map order tasks)"
  shows "tasksByOrder tasks c = Some p \<longleftrightarrow> p \<in> set tasks \<and> order p = c"
proof
  assume "tasksByOrder tasks c = Some p"
  then show "p \<in> set tasks \<and> order p = c" by (rule tasksByOrder_Some)
next
  assume p: "p \<in> set tasks \<and> order p = c"
  then have "tasksByOrder tasks c \<noteq> None" by (auto simp: tasksByOrder_None_iff)
  then obtain q where q: "tasksByOrder tasks c = Some q" by auto
  then have "q \<in> set tasks" "order q = c" using tasksByOrder_Some by blast+
  moreover from assms have "inj_on order (set tasks)" by (simp add: distinct_map)
  ultimately have "q = p" using p by (auto dest: inj_onD)
  with q show "tasksByOrder tasks c = Some p" by simp
qed




lemma precedingEnds_tasksByOrder:
  assumes "distinct (map order tasks)"
  shows "{d. \<exists>c \<in> set (precedingTasks t). precedingEnd (tasksByOrder tasks) tm c = Some d}
         = predecessorEnds tasks tm t"
proof -
  have "precedingEnd (tasksByOrder tasks) tm c = Some d \<longleftrightarrow>
        (\<exists>p \<in> set tasks. order p = c \<and> (\<exists>e. tm (task_id p) = Some e \<and> tl_end e = d))" for c d
  proof
    assume pe: "precedingEnd (tasksByOrder tasks) tm c = Some d"
    then obtain p where p: "tasksByOrder tasks c = Some p"
      by (auto simp: precedingEnd_def split: option.splits)
    with pe obtain e where "tm (task_id p) = Some e" "tl_end e = d"
      by (auto simp: precedingEnd_def)
    moreover from p have "p \<in> set tasks \<and> order p = c" by (rule tasksByOrder_Some)
    ultimately show "\<exists>p \<in> set tasks. order p = c \<and> (\<exists>e. tm (task_id p) = Some e \<and> tl_end e = d)"
      by blast
  next
    assume "\<exists>p \<in> set tasks. order p = c \<and> (\<exists>e. tm (task_id p) = Some e \<and> tl_end e = d)"
    then obtain p e where p: "p \<in> set tasks" "order p = c"
      and e: "tm (task_id p) = Some e" "tl_end e = d" by blast
    from p have "tasksByOrder tasks c = Some p"
      by (simp add: tasksByOrder_Some_iff[OF assms])
    with e show "precedingEnd (tasksByOrder tasks) tm c = Some d"
      by (simp add: precedingEnd_def)
  qed
  then show ?thesis by (auto simp: predecessorEnds_def)
qed


lemma referenceTimelineRun_inv:
  assumes domI: "\<And>tm. I tm \<Longrightarrow> dom tm \<subseteq> task_id ` set tasks"
    and pres: "\<And>t tm k tm' k'. t \<in> set tasks \<Longrightarrow> I tm \<Longrightarrow>
                 processTask z (tasksByOrder tasks) cr t (tm, k) = (tm', k') \<Longrightarrow> I tm'"
    and init: "I Map.empty"
    and run: "referenceTimelineRun z tasks cr = (tmf, itf)"
  shows "I tmf \<and> timelineComplete (tasksByOrder tasks) tasks tmf
         \<and> 0 \<le> itf \<and> itf \<le> int (length tasks)"
proof (cases "tasks = []")
  case True
  with run init show ?thesis
    by (simp add: referenceTimelineRun_def timelineComplete_def)
next
  case False
  with run have loop: "timelineLoop z (tasksByOrder tasks) cr (sortTasks tasks)
       (int (length tasks) + 5) Map.empty (int (length tasks)) 0 = (tmf, itf)"
    by (simp add: referenceTimelineRun_def Let_def length_sortTasks)
  have inv: "loopInv I tasks Map.empty (int (length tasks)) 0"
    using init by (simp add: loopInv_def)
  show ?thesis
  proof (rule timelineLoop_correct[OF domI _ _ set_sortTasks refl inv loop])
    show "\<forall>t tm k tm' k'. t \<in> set tasks \<longrightarrow> I tm \<longrightarrow>
            processTask z (tasksByOrder tasks) cr t (tm, k) = (tm', k') \<longrightarrow> I tm'"
      using pres by blast
    show "\<forall>c p. tasksByOrder tasks c = Some p \<longrightarrow> p \<in> set tasks"
      using tasksByOrder_Some by blast
  qed
qed

lemma referenceTimelineRun_complete:
  assumes "referenceTimelineRun z tasks cr = (tmf, itf)"
  shows "timelineComplete (tasksByOrder tasks) tasks tmf \<and> 0 \<le> itf \<and> itf \<le> int (length tasks)"
proof -
  have "dom tmf \<subseteq> task_id ` set tasks \<and> timelineComplete (tasksByOrder tasks) tasks tmf
         \<and> 0 \<le> itf \<and> itf \<le> int (length tasks)"
  proof (rule referenceTimelineRun_inv[where I = "\<lambda>tm. dom tm \<subseteq> task_id ` set tasks", OF _ _ _ assms])
    fix t tm k tm' k'
    assume "t \<in> set tasks" "dom tm \<subseteq> task_id ` set tasks"
      "processTask z (tasksByOrder tasks) cr t (tm, k) = (tm', k')"
    then show "dom tm' \<subseteq> task_id ` set tasks" by (rule processTask_dom)
  qed simp_all
  then show ?thesis by simp
qed

lemma referenceTimelineRun_sound:
  assumes dist: "distinct (map task_id tasks)"
    and run: "referenceTimelineRun z tasks cr = (tmf, itf)"
  shows "timelineSound z (tasksByOrder tasks) cr tasks tmf"
proof -
  from dist have inj: "inj_on task_id (set tasks)" by (simp add: distinct_map)
  have "timelineSound z (tasksByOrder tasks) cr tasks tmf
        \<and> timelineComplete (tasksByOrder tasks) tasks tmf
        \<and> 0 \<le> itf \<and> itf \<le> int (length tasks)"
  proof (rule referenceTimelineRun_inv[where I = "timelineSound z (tasksByOrder tasks) cr tasks", OF _ _ _ run])
    fix t tm k tm' k'
    assume "t \<in> set tasks" "timelineSound z (tasksByOrder tasks) cr tasks tm"
      "processTask z (tasksByOrder tasks) cr t (tm, k) = (tm', k')"
    then show "timelineSound z (tasksByOrder tasks) cr tasks tm'"
      using processTask_sound[OF inj] tasksByOrder_Some by blast
  qed (simp_all add: timelineSound_def)
  then show ?thesis by simp
qed

lemma no_predecessor_resolvable: "precedingTasks t = [] \<Longrightarrow> resolvable B t"
  by (rule resolvableI) simp


text \<open>Across a change of the clock a day of the local calendar is not 24 hours: two
  days from 9 March 2024, 12:00 UTC, are 47 hours in the zone \<open>springForward\<close>.\<close>

lemma addDays_springForward:
  "addDays springForward (Valid 1709985600000) 2 = Valid 1710154800000"
  by (simp add: addDays_def springForward_def timeClip_def maxTime_def msPerDay_def)

text \<open>
  Claim C1 fails as it is stated. In the zone UTC, with the season created at
  1704067200000, the task with order code A and a lead time of 200000000 days gets an
  entry whose end is the Invalid Date, not a date 200000000 days after its start: the sum
  lies outside the range of a \<open>Date\<close>. Task B, whose only predecessor is that task, then
  starts at the creation date, because \<open>isAfter\<close> is false for an invalid date.
\<close>

theorem reference_timeline_range_counterexample:
  "calculateReferenceTimeline utcZone [longTask, taskB] (Valid 1704067200000) (task_id longTask) =
     Some \<lparr>tl_start = Valid 1704067200000, tl_end = Invalid\<rparr>
   \<and> leadTime longTask = 200000000
   \<and> precedingTasks taskB = [order longTask]
   \<and> calculateReferenceTimeline utcZone [longTask, taskB] (Valid 1704067200000) (task_id taskB) =
       Some \<lparr>tl_start = Valid 1704067200000, tl_end = Valid 1704326400000\<rparr>"
  by code_simp

text \<open>
  Claim C1, amended. With unique task ids and unique order codes, a task that has an entry
  in the map returned by \<open>calculateReferenceTimeline\<close> has an entry for the task of every
  code in its \<open>precedingTasks\<close>. Its start is the creation date when that date is invalid,
  and otherwise the maximum of the creation date and the valid end dates of those
  predecessors. Its end is \<open>moment(start).add(leadTime, 'days')\<close>: the start moved by
  \<open>leadTime\<close> calendar days of the local zone, or the Invalid Date when the start is
  invalid or the result leaves the range of a \<open>Date\<close>. A task without predecessors has
  the entry that starts at the creation date and ends \<open>leadTime\<close> local days later.
\<close>

theorem reference_timeline_entries:
  assumes ids: "distinct (map task_id tasks)" and codes: "distinct (map order tasks)"
    and t: "t \<in> set tasks"
  shows "(\<forall>e. calculateReferenceTimeline z tasks cr (task_id t) = Some e \<longrightarrow>
            (\<forall>c \<in> set (precedingTasks t). \<exists>p \<in> set tasks. order p = c
                \<and> calculateReferenceTimeline z tasks cr (task_id p) \<noteq> None)
            \<and> tl_start e =
                (case cr of
                   Invalid \<Rightarrow> Invalid
                 | Valid c \<Rightarrow>
                     Valid (Max (insert c (validTimes
                       (predecessorEnds tasks (calculateReferenceTimeline z tasks cr) t)))))
            \<and> tl_end e = addDays z (tl_start e) (leadTime t))
       \<and> (precedingTasks t = [] \<longrightarrow>
            calculateReferenceTimeline z tasks cr (task_id t) =
              Some \<lparr>tl_start = cr, tl_end = addDays z cr (leadTime t)\<rparr>)"
proof -
  let ?B = "tasksByOrder tasks"
  obtain tmf itf where run: "referenceTimelineRun z tasks cr = (tmf, itf)"
    by (cases "referenceTimelineRun z tasks cr")
  then have calc: "calculateReferenceTimeline z tasks cr = tmf"
    by (simp add: calculateReferenceTimeline_def)
  have snd: "timelineSound z ?B cr tasks tmf"
    using ids run by (rule referenceTimelineRun_sound)
  have cmp: "timelineComplete ?B tasks tmf"
    using referenceTimelineRun_complete[OF run] by simp
  have ends: "{x. \<exists>c \<in> set (precedingTasks t). precedingEnd ?B tmf c = Some (Valid x)}
              = validTimes (predecessorEnds tasks tmf t)"
    using precedingEnds_tasksByOrder[OF codes, of t tmf] by (auto simp: validTimes_def)
  have entry: "(\<forall>c \<in> set (precedingTasks t). \<exists>p \<in> set tasks. order p = c \<and> tmf (task_id p) \<noteq> None)
        \<and> tl_start e = (case cr of Invalid \<Rightarrow> Invalid
                         | Valid c \<Rightarrow> Valid (Max (insert c (validTimes (predecessorEnds tasks tmf t)))))
        \<and> tl_end e = addDays z (tl_start e) (leadTime t)"
    if e: "tmf (task_id t) = Some e" for e
  proof -
    from snd t e have scan: "scanPreceding ?B tmf (precedingTasks t) cr = Some (tl_start e)"
      and fin: "tl_end e = addDays z (tl_start e) (leadTime t)"
      by (auto simp: timelineSound_def)
    have "\<exists>p \<in> set tasks. order p = c \<and> tmf (task_id p) \<noteq> None"
      if "c \<in> set (precedingTasks t)" for c
      using scanPreceding_resolved[OF scan that] tasksByOrder_Some by fastforce
    moreover have "tl_start e = (case cr of Invalid \<Rightarrow> Invalid
                         | Valid c \<Rightarrow> Valid (Max (insert c (validTimes (predecessorEnds tasks tmf t)))))"
    proof (cases cr)
      case Invalid
      with scan show ?thesis by (simp add: scanPreceding_Invalid)
    next
      case (Valid c)
      with scan scanPreceding_Max[of ?B tmf "precedingTasks t" c "tl_start e"] ends
      show ?thesis by simp
    qed
    ultimately show ?thesis using fin by blast
  qed
  have first: "tmf (task_id t) = Some \<lparr>tl_start = cr, tl_end = addDays z cr (leadTime t)\<rparr>"
    if np: "precedingTasks t = []"
  proof -
    from np have "resolvable ?B t" by (rule no_predecessor_resolvable)
    with cmp t obtain e where e: "tmf (task_id t) = Some e"
      by (auto simp: timelineComplete_def)
    from snd t e np have "tl_start e = cr" "tl_end e = addDays z cr (leadTime t)"
      by (auto simp: timelineSound_def)
    then have "e = \<lparr>tl_start = cr, tl_end = addDays z cr (leadTime t)\<rparr>" by simp
    with e show ?thesis by simp
  qed
  from entry first show ?thesis unfolding calc by blast
qed

theorem reference_timeline_entries_witness:
  "distinct (map task_id [taskB, taskA]) \<and> distinct (map order [taskB, taskA])
   \<and> taskA \<in> set [taskB, taskA] \<and> taskB \<in> set [taskB, taskA]
   \<and> precedingTasks taskA = []
   \<and> calculateReferenceTimeline utcPlus8 [taskB, taskA] (Valid 1704067200000) (task_id taskA) =
       Some \<lparr>tl_start = Valid 1704067200000, tl_end = Valid 1704499200000\<rparr>
   \<and> calculateReferenceTimeline utcPlus8 [taskB, taskA] (Valid 1704067200000) (task_id taskB) =
       Some \<lparr>tl_start = Valid 1704499200000, tl_end = Valid 1704758400000\<rparr>
   \<and> Valid 1704499200000 =
       Valid (Max (insert 1704067200000
                (validTimes (predecessorEnds [taskB, taskA]
                   (calculateReferenceTimeline utcPlus8 [taskB, taskA] (Valid 1704067200000)) taskB))))
   \<and> Valid 1704758400000 = addDays utcPlus8 (Valid 1704499200000) (leadTime taskB)"
proof -
  let ?ts = "[taskB, taskA]"
  have d: "distinct (map task_id ?ts)" "distinct (map order ?ts)"
    by (simp_all add: taskA_def taskB_def taskWithOrder_def)
  have a: "precedingTasks taskA = []" "leadTime taskA = 5"
    by (simp_all add: taskA_def taskWithOrder_def)
  have A: "calculateReferenceTimeline utcPlus8 ?ts (Valid 1704067200000) (task_id taskA) =
       Some \<lparr>tl_start = Valid 1704067200000, tl_end = Valid 1704499200000\<rparr>"
    using reference_timeline_entries[OF d, of taskA utcPlus8 "Valid 1704067200000"] a
    by (simp add: addDays_def utcPlus8_def fixedZone_def timeClip_def maxTime_def msPerDay_def)
  have B: "calculateReferenceTimeline utcPlus8 ?ts (Valid 1704067200000) (task_id taskB) =
       Some \<lparr>tl_start = Valid 1704499200000, tl_end = Valid 1704758400000\<rparr>"
    by code_simp
  from reference_timeline_entries[OF d, of taskB utcPlus8 "Valid 1704067200000"] B
  have "Valid 1704499200000 =
       Valid (Max (insert 1704067200000
                (validTimes (predecessorEnds ?ts
                   (calculateReferenceTimeline utcPlus8 ?ts (Valid 1704067200000)) taskB))))
   \<and> Valid 1704758400000 = addDays utcPlus8 (Valid 1704499200000) (leadTime taskB)"
    by simp
  with d a A B show ?thesis by simp
qed



section \<open>Facts about actionability\<close>

lemma find_order_distinct:
  "distinct (map order ts) \<Longrightarrow> p \<in> set ts \<Longrightarrow> find (\<lambda>x. order x = order p) ts = Some p"
  by (induction ts) (auto simp: image_iff)

lemma find_order_Some:
  "find (\<lambda>x. order x = c) ts = Some p \<Longrightarrow> p \<in> set ts \<and> order p = c"
  by (induction ts) (auto split: if_splits)

lemma isTaskActionable_all:
  "isTaskActionable (Some t) (Some ts) =
     (status t \<noteq> ''completed'' \<and> status t \<noteq> ''blocked'' \<and>
      (\<forall>c \<in> set (precedingTasks t).
         \<exists>p. find (\<lambda>x. order x = c) ts = Some p \<and> status p = ''completed''))"
  unfolding isTaskActionable_def
  by (cases "precedingTasks t = []") (auto simp: list_all_iff split: option.splits)

text \<open>
  Claim C3. \<open>isTaskActionable\<close> is false for a completed or blocked task; true for a
  pending task without predecessors; and otherwise true exactly when every code in
  \<open>precedingTasks\<close> finds a task in the list whose status is completed. With unique order
  codes the task found is the task of the list with that code. A code that no task of
  the list has makes the result false.
\<close>

theorem isTaskActionable_spec:
  "(status t = ''completed'' \<or> status t = ''blocked'' \<longrightarrow> \<not> isTaskActionable (Some t) (Some ts))
   \<and> (status t = ''pending'' \<and> precedingTasks t = [] \<longrightarrow> isTaskActionable (Some t) (Some ts))
   \<and> (status t \<noteq> ''completed'' \<and> status t \<noteq> ''blocked'' \<longrightarrow>
        isTaskActionable (Some t) (Some ts) =
          (\<forall>c \<in> set (precedingTasks t).
             \<exists>p. find (\<lambda>x. order x = c) ts = Some p \<and> status p = ''completed''))
   \<and> (status t \<noteq> ''completed'' \<and> status t \<noteq> ''blocked'' \<and> distinct (map order ts) \<longrightarrow>
        isTaskActionable (Some t) (Some ts) =
          (\<forall>c \<in> set (precedingTasks t).
             \<exists>p \<in> set ts. order p = c \<and> status p = ''completed''))
   \<and> ((\<exists>c \<in> set (precedingTasks t). \<forall>p \<in> set ts. order p \<noteq> c) \<longrightarrow>
        \<not> isTaskActionable (Some t) (Some ts))"
proof (intro conjI impI)
  assume "status t = ''completed'' \<or> status t = ''blocked''"
  then show "\<not> isTaskActionable (Some t) (Some ts)"
    by (auto simp: isTaskActionable_all)
next
  assume "status t = ''pending'' \<and> precedingTasks t = []"
  then show "isTaskActionable (Some t) (Some ts)"
    by (simp add: isTaskActionable_all)
next
  assume "status t \<noteq> ''completed'' \<and> status t \<noteq> ''blocked''"
  then show "isTaskActionable (Some t) (Some ts) =
          (\<forall>c \<in> set (precedingTasks t).
             \<exists>p. find (\<lambda>x. order x = c) ts = Some p \<and> status p = ''completed'')"
    by (simp add: isTaskActionable_all)
next
  assume a: "status t \<noteq> ''completed'' \<and> status t \<noteq> ''blocked'' \<and> distinct (map order ts)"
  have "(\<exists>p. find (\<lambda>x. order x = c) ts = Some p \<and> status p = ''completed'')
        = (\<exists>p \<in> set ts. order p = c \<and> status p = ''completed'')" for c
    using a find_order_distinct[of ts] find_order_Some[of c ts] by blast
  with a show "isTaskActionable (Some t) (Some ts) =
          (\<forall>c \<in> set (precedingTasks t).
             \<exists>p \<in> set ts. order p = c \<and> status p = ''completed'')"
    by (simp add: isTaskActionable_all)
next
  assume "\<exists>c \<in> set (precedingTasks t). \<forall>p \<in> set ts. order p \<noteq> c"
  then obtain c where c: "c \<in> set (precedingTasks t)" "\<forall>p \<in> set ts. order p \<noteq> c"
    by blast
  have none: "find (\<lambda>x. order x = c) ts = None"
    using c(2) by (simp add: find_None_iff)
  show "\<not> isTaskActionable (Some t) (Some ts)"
  proof
    assume "isTaskActionable (Some t) (Some ts)"
    then have "\<forall>c \<in> set (precedingTasks t).
         \<exists>p. find (\<lambda>x. order x = c) ts = Some p \<and> status p = ''completed''"
      by (simp add: isTaskActionable_all)
    with c(1) obtain p where "find (\<lambda>x. order x = c) ts = Some p" by blast
    with none show False by simp
  qed
qed

theorem isTaskActionable_spec_witness:
  "isTaskActionable (Some taskA) (Some [taskA, taskB])
   \<and> \<not> isTaskActionable (Some taskB) (Some [taskA, taskB])
   \<and> \<not> isTaskActionable (Some (taskA\<lparr>status := ''blocked''\<rparr>)) (Some [taskA, taskB])
   \<and> isTaskActionable (Some taskB) (Some [taskA\<lparr>status := ''completed''\<rparr>, taskB])
   \<and> \<not> isTaskActionable (Some taskE) (Some [taskA, taskE])"
  using isTaskActionable_spec[of taskA "[taskA, taskB]"]
    isTaskActionable_spec[of taskB "[taskA, taskB]"]
    isTaskActionable_spec[of "taskA\<lparr>status := ''blocked''\<rparr>" "[taskA, taskB]"]
    isTaskActionable_spec[of taskB "[taskA\<lparr>status := ''completed''\<rparr>, taskB]"]
    isTaskActionable_spec[of taskE "[taskA, taskE]"]
  by (simp add: taskA_def taskB_def taskE_def taskWithOrder_def)

section \<open>Facts about the edit permission\<close>

lemma isCellEditable_admin_open:
  "isCellEditable False (Some adminUser) (Some openSeason) t = Inr True"
  by (simp add: isCellEditable_def adminUser_def openSeason_def toLowerCase_def lowerChar_def
      isAdminOrPlannerRole_def userDepartmentLower_def)




text \<open>What \<open>handleEditClick\<close> does for a blocked task: for every user the click is
  answered with the warning and the row does not enter edit mode.\<close>

lemma handleEditClick_blocked:
  assumes "status t = ''blocked''"
  shows "handleEditClick currentUser taskList rowId (Some t) st =
           st\<lparr>alertInfo := \<lparr>alert_open = True, message = ''Blocked tasks cannot be edited.'',
                             severity = ''warning''\<rparr>\<rparr>"
    and "rowModesModel (handleEditClick currentUser taskList rowId (Some t) st) = rowModesModel st"
  using assms unfolding handleEditClick_def
  by (simp_all add: taskStatusLower_def toLowerCase_def lowerChar_def showAlert_def Let_def)

text \<open>
  Claim C5, evaluated on the code. Task A, blocked, in an Open season, and an Admin:
  \<open>isCellEditable\<close> has no rule on blocked tasks and is true, so the remarks cell offers
  Save, and \<open>handleRemarkUpdate\<close> sends the new remarks to the persistence service
  without looking at the status; \<open>handleCellDoubleClick\<close> does not prevent the grid's
  handling of a double click either. Only the click on Edit is answered with the warning
  that blocked tasks cannot be edited.
\<close>

theorem blocked_remarks_edit_sent:
  "status blockedTask = ''blocked''
   \<and> isCellEditable False (Some adminUser) (Some openSeason) blockedTask = Inr True
   \<and> remarksCellSave False (Some adminUser) (Some openSeason) blockedTask ''late'' idleState =
       Inr (idleState\<lparr>isUpdating := True\<rparr>,
            Some (CallUpdateTask ''A''
                    \<lparr>p_remarks = Some (Some ''late''), p_actualCompletion = None, p_status = None\<rparr>))
   \<and> handleCellDoubleClick (Some adminUser) ''remarks'' (Some blockedTask) idleState =
       (idleState, False)
   \<and> editActionClick False (Some adminUser) (Some openSeason) (Some [blockedTask]) blockedTask
         idleState =
       Inr (idleState\<lparr>alertInfo := \<lparr>alert_open = True, message = ''Blocked tasks cannot be edited.'',
                             severity = ''warning''\<rparr>\<rparr>)"
proof -
  have b: "status blockedTask = ''blocked''" "task_id blockedTask = ''A''"
    by (simp_all add: blockedTask_def taskA_def taskWithOrder_def)
  have d: "handleCellDoubleClick (Some adminUser) ''remarks'' (Some blockedTask) idleState =
       (idleState, False)"
    by (simp add: handleCellDoubleClick_def b taskStatusLower_def toLowerCase_def lowerChar_def)
  from b d isCellEditable_admin_open[of blockedTask] handleEditClick_blocked(1)[OF b(1)]
  show ?thesis
    by (simp add: remarksCellSave_def handleRemarkUpdate_def editActionClick_def)
qed

text \<open>
  Claim C6, evaluated on the code. Task E is pending and names the code Q, which no task
  of the list has: \<open>isTaskActionable\<close> is false for it, and yet \<open>handleEditClick\<close>
  puts its row into edit mode without any alert, because its loop passes over a code that
  names no task.
\<close>

theorem dangling_predecessor_edit_allowed:
  "status taskE = ''pending''
   \<and> \<not> isTaskActionable (Some taskE) (Some [taskA, taskE])
   \<and> handleEditClick (Some adminUser) (Some [taskA, taskE]) ''E'' (Some taskE) idleState =
       idleState\<lparr>rowModesModel := (rowModesModel idleState)(''E'' \<mapsto> Edit ''actualCompletion'')\<rparr>
   \<and> editActionClick False (Some adminUser) (Some openSeason) (Some [taskA, taskE]) taskE idleState =
       Inr (idleState\<lparr>rowModesModel := (rowModesModel idleState)(''E'' \<mapsto> Edit ''actualCompletion'')\<rparr>)"
proof -
  have e: "isCellEditable False (Some adminUser) (Some openSeason) taskE = Inr True"
    by (simp add: isCellEditable_def adminUser_def openSeason_def taskStatusLower_def
        toLowerCase_def lowerChar_def isAdminOrPlannerRole_def userDepartmentLower_def
        taskE_def taskWithOrder_def)
  have h: "handleEditClick (Some adminUser) (Some [taskA, taskE]) ''E'' (Some taskE) idleState =
       idleState\<lparr>rowModesModel := (rowModesModel idleState)(''E'' \<mapsto> Edit ''actualCompletion'')\<rparr>"
    by (simp add: handleEditClick_def taskE_def taskA_def taskWithOrder_def
        adminUser_def idleState_def taskStatusLower_def toLowerCase_def lowerChar_def
        isAdminOrPlannerRole_def tasksByOrder_def)
  have a: "\<not> isTaskActionable (Some taskE) (Some [taskA, taskE])"
    by (simp add: isTaskActionable_def taskE_def taskA_def taskWithOrder_def)
  have i: "task_id taskE = ''E''" "status taskE = ''pending''"
    by (simp_all add: taskE_def taskWithOrder_def)
  from e h a i show ?thesis by (simp add: editActionClick_def)
qed

section \<open>Facts about the edit validation\<close>

lemma day_le_iff: "(k * 86400000 \<le> (x::int)) = (k \<le> x div 86400000)"
proof
  assume "k * 86400000 \<le> x"
  then have "(k * 86400000) div 86400000 \<le> x div 86400000" by (rule zdiv_mono1) simp
  then show "k \<le> x div 86400000" by simp
next
  assume "k \<le> x div 86400000"
  then have "k * 86400000 \<le> (x div 86400000) * 86400000" by simp
  also have "\<dots> \<le> x"
  proof -
    have "x = (x div 86400000) * 86400000 + x mod 86400000" by simp
    moreover have "0 \<le> x mod 86400000" by simp
    ultimately show ?thesis by linarith
  qed
  finally show "k * 86400000 \<le> x" .
qed

text \<open>In a regular zone the comparison of \<open>isBefore\<close> at day granularity is the
  comparison of the local calendar days.\<close>

lemma isBeforeDay_iff:
  assumes "midnightRegular z"
  shows "isBeforeDay z a b \<longleftrightarrow> localDayOf z a < localDayOf z b"
proof -
  have "isBeforeDay z a b \<longleftrightarrow> toUTC z ((localDayOf z a + 1) * msPerDay) \<le> b"
    by (auto simp: isBeforeDay_def endOfDay_def)
  also have "\<dots> \<longleftrightarrow> (localDayOf z a + 1) * msPerDay \<le> toLocal z b"
    using assms by (simp add: midnightRegular_def)
  also have "\<dots> \<longleftrightarrow> localDayOf z a + 1 \<le> localDayOf z b"
    unfolding localDayOf_def msPerDay_def by (rule day_le_iff)
  also have "\<dots> \<longleftrightarrow> localDayOf z a < localDayOf z b"
    by linarith
  finally show ?thesis .
qed

lemma fixedZone_regular: "midnightRegular (fixedZone offset)"
  by (auto simp: midnightRegular_def fixedZone_def)

text \<open>A zone whose clock changes at two in the morning is regular as well.\<close>

lemma springForward_regular: "midnightRegular springForward"
proof -
  have "(k * 86400000 + 18000000 \<le> t) = (k * 86400000 \<le> t - 14400000)"
    if "k * 86400000 < 1710039600000" "\<not> t < 1710054000000" for k t :: int
  proof -
    from that(1) have "k \<le> 19792" by linarith
    then have "k * 86400000 \<le> 1710028800000" by linarith
    with that(2) show ?thesis by linarith
  qed
  moreover have "(k * 86400000 + 14400000 \<le> t) = (k * 86400000 \<le> t - 18000000)"
    if "\<not> k * 86400000 < 1710039600000" "t < 1710054000000" for k t :: int
  proof -
    from that(1) have "19793 \<le> k" by linarith
    then have "1710115200000 \<le> k * 86400000" by linarith
    with that(2) show ?thesis by linarith
  qed
  ultimately show ?thesis
    by (auto simp: midnightRegular_def springForward_def msPerDay_def)
qed

lemma rowUpdate_reject_iff:
  "snd (handleProcessRowUpdate z newRow oldRow st) = RejectInvalidDate \<longleftrightarrow>
     actualCompletion newRow \<noteq> actualCompletion oldRow \<and>
     (\<exists>c s. actualCompletion newRow = Some c \<and> computedStart newRow = Some s \<and> isBeforeDay z c s)"
  unfolding handleProcessRowUpdate_def
  by (auto simp: Let_def payloadKeys_def split: option.splits)

lemma rowUpdate_accept_changed:
  assumes "actualCompletion newRow \<noteq> actualCompletion oldRow"
    and "actualCompletion newRow = Some c"
    and "snd (handleProcessRowUpdate z newRow oldRow st) \<noteq> RejectInvalidDate"
  shows "\<exists>p. handleProcessRowUpdate z newRow oldRow st =
            (st\<lparr>isUpdating := True\<rparr>, CallUpdateTask (task_id newRow) p)
          \<and> p_actualCompletion p = Some (Some c)
          \<and> (status newRow \<noteq> ''completed'' \<longrightarrow> p_status p = Some ''completed'')"
  using assms unfolding handleProcessRowUpdate_def
  by (auto simp: Let_def payloadKeys_def split: option.splits if_splits)

lemma rowUpdate_status_derived:
  assumes "snd (handleProcessRowUpdate z newRow oldRow st) = CallUpdateTask i p"
    and "p_actualCompletion p = Some (Some c)"
    and "status newRow \<noteq> ''completed''"
  shows "p_status p = Some ''completed''"
  using assms unfolding handleProcessRowUpdate_def
  by (auto simp: Let_def payloadKeys_def split: option.splits if_splits)

text \<open>
  Claim C7. Days are the calendar days of the browser's zone, which is taken to be
  regular. A changed, non-null \<open>actualCompletion\<close> whose local day is before the local day
  of \<open>computedDates.start\<close> is rejected; one on the same local day is accepted and sent;
  and a payload that is sent with a non-null \<open>actualCompletion\<close> for a row whose status is
  not completed also carries the status completed.
\<close>

theorem completion_date_validation:
  "midnightRegular z \<Longrightarrow>
   (actualCompletion newRow = Some c \<and> actualCompletion newRow \<noteq> actualCompletion oldRow
      \<and> computedStart newRow = Some s \<and> localDayOf z c < localDayOf z s \<longrightarrow>
        handleProcessRowUpdate z newRow oldRow st =
          (st\<lparr>alertInfo := \<lparr>alert_open = True,
              message = ''Actual completion date cannot be earlier than the start date.'',
              severity = ''error''\<rparr>\<rparr>,
           RejectInvalidDate))
   \<and> (actualCompletion newRow = Some c \<and> actualCompletion newRow \<noteq> actualCompletion oldRow
      \<and> computedStart newRow = Some s \<and> localDayOf z c = localDayOf z s \<longrightarrow>
        (\<exists>p. handleProcessRowUpdate z newRow oldRow st =
               (st\<lparr>isUpdating := True\<rparr>, CallUpdateTask (task_id newRow) p)
             \<and> p_actualCompletion p = Some (Some c)))
   \<and> (\<forall>i p d. snd (handleProcessRowUpdate z newRow oldRow st) = CallUpdateTask i p
         \<and> p_actualCompletion p = Some (Some d) \<and> status newRow \<noteq> ''completed'' \<longrightarrow>
         p_status p = Some ''completed'')"
proof (intro conjI impI allI)
  assume reg: "midnightRegular z"
  assume a: "actualCompletion newRow = Some c \<and> actualCompletion newRow \<noteq> actualCompletion oldRow
      \<and> computedStart newRow = Some s \<and> localDayOf z c < localDayOf z s"
  then show "handleProcessRowUpdate z newRow oldRow st =
          (st\<lparr>alertInfo := \<lparr>alert_open = True,
              message = ''Actual completion date cannot be earlier than the start date.'',
              severity = ''error''\<rparr>\<rparr>,
           RejectInvalidDate)"
    by (auto simp: handleProcessRowUpdate_def isBeforeDay_iff[OF reg] showAlert_def Let_def)
next
  assume reg: "midnightRegular z"
  assume a: "actualCompletion newRow = Some c \<and> actualCompletion newRow \<noteq> actualCompletion oldRow
      \<and> computedStart newRow = Some s \<and> localDayOf z c = localDayOf z s"
  then have "snd (handleProcessRowUpdate z newRow oldRow st) \<noteq> RejectInvalidDate"
    by (simp add: rowUpdate_reject_iff isBeforeDay_iff[OF reg])
  with a show "\<exists>p. handleProcessRowUpdate z newRow oldRow st =
               (st\<lparr>isUpdating := True\<rparr>, CallUpdateTask (task_id newRow) p)
             \<and> p_actualCompletion p = Some (Some c)"
    using rowUpdate_accept_changed[of newRow oldRow c z st] by blast
next
  fix i p d
  assume "snd (handleProcessRowUpdate z newRow oldRow st) = CallUpdateTask i p
         \<and> p_actualCompletion p = Some (Some d) \<and> status newRow \<noteq> ''completed''"
  then show "p_status p = Some ''completed''"
    using rowUpdate_status_derived[of z newRow oldRow st i p d] by blast
qed

text \<open>In the zone eight hours ahead of UTC: 57599999 is the last millisecond of a local
  day and 57600000 the first of the next; 1704124800000 and 1704153600000 lie on one
  local day.\<close>

theorem completion_date_validation_witness:
  "midnightRegular utcPlus8
   \<and> localDayOf utcPlus8 57599999 < localDayOf utcPlus8 57600000
   \<and> handleProcessRowUpdate utcPlus8
     (taskA\<lparr>actualCompletion := Some 57599999,
            computedDates := Some \<lparr>cd_start = Some 57600000, cd_end = None\<rparr>\<rparr>) taskA idleState =
     (idleState\<lparr>alertInfo := \<lparr>alert_open = True,
              message = ''Actual completion date cannot be earlier than the start date.'',
              severity = ''error''\<rparr>\<rparr>,
      RejectInvalidDate)
   \<and> localDayOf utcPlus8 1704124800000 = localDayOf utcPlus8 1704153600000
   \<and> (\<exists>p. handleProcessRowUpdate utcPlus8
            (taskA\<lparr>actualCompletion := Some 1704124800000,
                   computedDates := Some \<lparr>cd_start = Some 1704153600000, cd_end = None\<rparr>\<rparr>) taskA idleState =
            (idleState\<lparr>isUpdating := True\<rparr>, CallUpdateTask ''A'' p)
          \<and> p_actualCompletion p = Some (Some 1704124800000)
          \<and> p_status p = Some ''completed'')"
proof -
  let ?early = "taskA\<lparr>actualCompletion := Some 57599999,
            computedDates := Some \<lparr>cd_start = Some 57600000, cd_end = None\<rparr>\<rparr>"
  let ?same = "taskA\<lparr>actualCompletion := Some 1704124800000,
                   computedDates := Some \<lparr>cd_start = Some 1704153600000, cd_end = None\<rparr>\<rparr>"
  have reg: "midnightRegular utcPlus8"
    unfolding utcPlus8_def by (rule fixedZone_regular)
  have old: "actualCompletion taskA = None" "task_id taskA = ''A''" "status taskA = ''pending''"
    by (simp_all add: taskA_def taskWithOrder_def)
  have d: "localDayOf utcPlus8 57599999 < localDayOf utcPlus8 57600000"
    "localDayOf utcPlus8 1704124800000 = localDayOf utcPlus8 1704153600000"
    by (simp_all add: localDayOf_def utcPlus8_def fixedZone_def msPerDay_def)
  have 1: "handleProcessRowUpdate utcPlus8 ?early taskA idleState =
     (idleState\<lparr>alertInfo := \<lparr>alert_open = True,
              message = ''Actual completion date cannot be earlier than the start date.'',
              severity = ''error''\<rparr>\<rparr>,
      RejectInvalidDate)"
    using completion_date_validation[OF reg, of ?early 57599999 taskA 57600000 idleState] old d
    by (simp add: computedStart_def)
  obtain p where p: "handleProcessRowUpdate utcPlus8 ?same taskA idleState =
            (idleState\<lparr>isUpdating := True\<rparr>, CallUpdateTask ''A'' p)"
      "p_actualCompletion p = Some (Some 1704124800000)"
    using completion_date_validation[OF reg, of ?same 1704124800000 taskA 1704153600000 idleState] old d
    by (auto simp: computedStart_def)
  have "p_status p = Some ''completed''"
    using completion_date_validation[OF reg, of ?same 1704124800000 taskA 1704153600000 idleState] p old
    by simp
  with reg d 1 p show ?thesis by blast
qed

text \<open>
  Claim C9. A proposed row that changes neither \<open>remarks\<close> nor \<open>actualCompletion\<close> gives
  back the old row: the persistence service is not called and the page state, with its
  alert, stays as it is.
\<close>

theorem unchanged_edit_is_noop:
  "remarks newRow = remarks oldRow \<Longrightarrow> actualCompletion newRow = actualCompletion oldRow \<Longrightarrow>
   handleProcessRowUpdate z newRow oldRow st = (st, ReturnOldRow oldRow)"
  by (simp add: handleProcessRowUpdate_def payloadKeys_def Let_def)

theorem unchanged_edit_is_noop_witness:
  "handleProcessRowUpdate utcPlus8 (taskA\<lparr>name := ''renamed''\<rparr>) taskA idleState =
     (idleState, ReturnOldRow taskA)"
  using unchanged_edit_is_noop[of "taskA\<lparr>name := ''renamed''\<rparr>" taskA utcPlus8 idleState]
  by simp

text \<open>
  Claim C10. When \<open>computedDates.start\<close> is absent, no date is rejected: a changed,
  non-null \<open>actualCompletion\<close> is sent as it is. A rejection for an invalid date occurs
  only for a row that has \<open>computedDates.start\<close>.
\<close>

theorem no_start_no_date_check:
  "(computedStart newRow = None \<longrightarrow>
      snd (handleProcessRowUpdate z newRow oldRow st) \<noteq> RejectInvalidDate
      \<and> (\<forall>c. actualCompletion newRow = Some c \<and> actualCompletion newRow \<noteq> actualCompletion oldRow \<longrightarrow>
            (\<exists>p. handleProcessRowUpdate z newRow oldRow st =
                   (st\<lparr>isUpdating := True\<rparr>, CallUpdateTask (task_id newRow) p)
                 \<and> p_actualCompletion p = Some (Some c))))
   \<and> (snd (handleProcessRowUpdate z newRow oldRow st) = RejectInvalidDate \<longrightarrow>
        (\<exists>cd s. computedDates newRow = Some cd \<and> cd_start cd = Some s))"
proof (intro conjI impI allI)
  assume n: "computedStart newRow = None"
  then show r: "snd (handleProcessRowUpdate z newRow oldRow st) \<noteq> RejectInvalidDate"
    by (simp add: rowUpdate_reject_iff)
  fix c
  assume "actualCompletion newRow = Some c \<and> actualCompletion newRow \<noteq> actualCompletion oldRow"
  then show "\<exists>p. handleProcessRowUpdate z newRow oldRow st =
                   (st\<lparr>isUpdating := True\<rparr>, CallUpdateTask (task_id newRow) p)
                 \<and> p_actualCompletion p = Some (Some c)"
    using rowUpdate_accept_changed[of newRow oldRow c z st] r by blast
next
  assume "snd (handleProcessRowUpdate z newRow oldRow st) = RejectInvalidDate"
  then obtain s where "computedStart newRow = Some s"
    by (auto simp: rowUpdate_reject_iff)
  then show "\<exists>cd s. computedDates newRow = Some cd \<and> cd_start cd = Some s"
    by (auto simp: computedStart_def split: option.splits)
qed


theorem no_start_no_date_check_witness:
  "computedStart (taskA\<lparr>actualCompletion := Some (- 5)\<rparr>) = None
   \<and> (\<exists>p. handleProcessRowUpdate utcPlus8 (taskA\<lparr>actualCompletion := Some (- 5)\<rparr>) taskA idleState =
            (idleState\<lparr>isUpdating := True\<rparr>, CallUpdateTask ''A'' p)
          \<and> p_actualCompletion p = Some (Some (- 5)))"
  using no_start_no_date_check[of "taskA\<lparr>actualCompletion := Some (- 5)\<rparr>" utcPlus8 taskA idleState]
  by (simp add: computedStart_def taskA_def taskWithOrder_def)

end
